theory Spec2Isabelle
  imports
    Complex_Main
    "HOL-Library.Finite_Map"
    "HOL-Library.Multiset"
    "HOL-Library.Char_ord"
    "HOL-Library.List_Lexorder"
    "HOL-Library.Product_Lexorder"
begin

section \<open>Data model of fasttp.py\<close>

text \<open>
  Paths are Python strings. A dependency graph is the dict \<^verbatim>\<open>dependencies\<close>:
  a finite mapping from a path to the list of its dependencies. The change set is the
  Python set \<^verbatim>\<open>changed\<close>. Python integers are unbounded; the distances and
  counters of the traversal never go below zero, so they are natural numbers.
\<close>

type_synonym path = string
type_synonym graph = "(path, path list) fmap"

text \<open>The local variables of \<^verbatim>\<open>bfs_features\<close> that the loop updates
  (the deque \<^verbatim>\<open>neighbors\<close> is passed separately).\<close>

record bfs_state =
  visited :: "path set"
  number_changed_dep :: nat
  len_shortest_path :: nat
  avg_len_shortest_paths :: nat

section \<open>Feature extraction: \<^verbatim>\<open>bfs_features\<close>\<close>

text \<open>
  Lines 75 to 79: the update made when the node taken from the deque is in the
  change set.
\<close>

definition count_changed :: "path set \<Rightarrow> path \<Rightarrow> nat \<Rightarrow> bfs_state \<Rightarrow> bfs_state" where
  "count_changed changed neighbor distance st =
     (if neighbor \<in> changed then
        st\<lparr>number_changed_dep := number_changed_dep st + 1,
           len_shortest_path :=
             (if distance < len_shortest_path st then distance else len_shortest_path st),
           avg_len_shortest_paths := avg_len_shortest_paths st + distance\<rparr>
      else st)"

text \<open>
  Lines 71 to 82, the \<^verbatim>\<open>while neighbors:\<close> loop. The deque is a list whose
  head is its left end: \<^verbatim>\<open>popleft\<close> takes the head, \<^verbatim>\<open>extend\<close> appends.
  The loop is a partial function: \<open>None\<close> stands for a run that never leaves the loop.
\<close>

partial_function (option) bfs_loop ::
  "graph \<Rightarrow> path set \<Rightarrow> (path \<times> nat) list \<Rightarrow> bfs_state \<Rightarrow> bfs_state option" where
  "bfs_loop dependencies changed neighbors st =
     (case neighbors of
        [] \<Rightarrow> Some st
      | (neighbor, distance) # rest \<Rightarrow>
          if neighbor \<notin> visited st then
            (let st' = count_changed changed neighbor distance
                         (st\<lparr>visited := insert neighbor (visited st)\<rparr>)
             in case fmlookup dependencies neighbor of
                  Some deps \<Rightarrow>
                    bfs_loop dependencies changed
                      (rest @ map (\<lambda>dep. (dep, distance + 1)) deps) st'
                | None \<Rightarrow> bfs_loop dependencies changed rest st')
          else bfs_loop dependencies changed rest st)"

text \<open>
  Lines 65 to 69 and 84 to 89: the initial values, the loop, and the average. The true
  division of line 85 is taken over the reals; with no changed node the third component
  is the integer sentinel itself.
\<close>

definition bfs_init :: bfs_state where
  "bfs_init = \<lparr>visited = {}, number_changed_dep = 0, len_shortest_path = 999999,
               avg_len_shortest_paths = 0\<rparr>"

definition bfs_result :: "bfs_state \<Rightarrow> nat \<times> nat \<times> real" where
  "bfs_result st =
     (number_changed_dep st, len_shortest_path st,
      if number_changed_dep st \<noteq> 0
      then real (avg_len_shortest_paths st) / real (number_changed_dep st)
      else real (len_shortest_path st))"

definition bfs_features :: "path \<Rightarrow> graph \<Rightarrow> path set \<Rightarrow> (nat \<times> nat \<times> real) option" where
  "bfs_features test dependencies changed =
     map_option bfs_result (bfs_loop dependencies changed [(test, 0)] bfs_init)"

section \<open>Ranking: \<^verbatim>\<open>rank\<close>\<close>

text \<open>
  A score is a Python float: the constant \<^verbatim>\<open>1.0\<close> or \<^verbatim>\<open>v[0].item()\<close>. A float
  is NaN or a number; the numbers (the infinities with them) are linearly ordered and are
  represented by reals. Every comparison with NaN is false, equality included.
\<close>

datatype pyfloat = NaN | Float real

fun float_eq :: "pyfloat \<Rightarrow> pyfloat \<Rightarrow> bool" where
  "float_eq (Float a) (Float b) = (a = b)"
| "float_eq a b = False"

fun float_lt :: "pyfloat \<Rightarrow> pyfloat \<Rightarrow> bool" where
  "float_lt (Float a) (Float b) = (a < b)"
| "float_lt a b = False"

text \<open>
  Python's \<^verbatim>\<open><\<close> on the pairs \<^verbatim>\<open>(score, test)\<close>: the first components that
  are not equal decide; strings are compared character by character. The floats of two
  pairs of the list are distinct objects unless they are the constant \<^verbatim>\<open>1.0\<close>, so
  equality of scores is equality of floats.
\<close>

definition tuple_lt :: "pyfloat \<times> path \<Rightarrow> pyfloat \<times> path \<Rightarrow> bool" where
  "tuple_lt x y =
     (if float_eq (fst x) (fst y) then snd x < snd y else float_lt (fst x) (fst y))"

text \<open>
  Python's list sort looks at the elements through \<^verbatim>\<open><\<close> only. It puts each
  element into the sorted prefix behind the last element that it is not smaller than;
  the place is found here from the right end of the prefix, which is kept with its last
  element first. Where \<^verbatim>\<open><\<close> orders the elements of the list linearly, every stable
  sort gives this list.
\<close>

fun insert_from_right :: "('a \<Rightarrow> 'a \<Rightarrow> bool) \<Rightarrow> 'a \<Rightarrow> 'a list \<Rightarrow> 'a list" where
  "insert_from_right lt pivot [] = [pivot]"
| "insert_from_right lt pivot (p # prefix) =
     (if lt pivot p then p # insert_from_right lt pivot prefix else pivot # p # prefix)"

definition list_sort :: "('a \<Rightarrow> 'a \<Rightarrow> bool) \<Rightarrow> 'a list \<Rightarrow> 'a list" where
  "list_sort lt xs = rev (foldl (\<lambda>prefix pivot. insert_from_right lt pivot prefix) [] xs)"

text \<open>
  \<^verbatim>\<open>sorted(ranked, reverse=True)\<close>: Python reverses the list, sorts it and reverses
  the result.
\<close>

definition sorted_reverse :: "(pyfloat \<times> path) list \<Rightarrow> (pyfloat \<times> path) list" where
  "sorted_reverse xs = rev (list_sort tuple_lt (rev xs))"

text \<open>
  Lines 91 to 95. The model is the parameter \<open>predict\<close>: it takes the list of feature
  rows and gives one list entry per output row, the entry being the row's first column
  (\<^verbatim>\<open>v[0].item()\<close>). Python's \<^verbatim>\<open>zip\<close> stops at the shorter sequence, as
  \<^const>\<open>zip\<close> does. The result is \<open>None\<close> when a traversal does not return.
\<close>

definition rank ::
  "((nat \<times> nat \<times> real) list \<Rightarrow> pyfloat list) \<Rightarrow> path list \<Rightarrow> graph \<Rightarrow> path set \<Rightarrow>
   (pyfloat \<times> path) list option" where
  "rank predict tests dependencies changed =
     (case those (map (\<lambda>test. bfs_features test dependencies changed) tests) of
        None \<Rightarrow> None
      | Some features \<Rightarrow>
          (let scores = map (\<lambda>(v, test). if test \<in> changed then Float 1 else v)
                          (zip (predict features) tests);
               ranked = zip scores tests
           in Some (sorted_reverse ranked)))"

section \<open>Change detection: \<^verbatim>\<open>load_hashes\<close> and the change set of \<^verbatim>\<open>tp\<close>\<close>

datatype error = KeyError | OSError | ValueError

type_synonym hashes = "(path, string) fmap"

definition FOLDER :: path where
  "FOLDER = ''.fasttp''"

text \<open>\<^verbatim>\<open>os.path.join\<close> (POSIX) for two components; with three it is applied twice.\<close>

definition join :: "path \<Rightarrow> path \<Rightarrow> path" where
  "join a b =
     (if b \<noteq> [] \<and> hd b = CHR ''/'' then b
      else if a = [] \<or> last a = CHR ''/'' then a @ b
      else a @ ''/'' @ b)"

text \<open>
  Lines 21 to 26. The parameter \<open>open_load\<close> is the file system seen through
  \<^verbatim>\<open>open\<close> followed by \<^verbatim>\<open>json.load\<close>: for a path, either the exception raised
  or the mapping read. The bare \<^verbatim>\<open>except\<close> catches every exception.
\<close>

definition load_hashes :: "(path \<Rightarrow> error + hashes) \<Rightarrow> path \<Rightarrow> hashes" where
  "load_hashes open_load path =
     (case open_load (join (join path FOLDER) ''hashes.json'') of
        Inr hashes \<Rightarrow> hashes
      | Inl e \<Rightarrow> fmempty)"

text \<open>
  Line 107, the dict comprehension over \<^verbatim>\<open>chain(test_files, source_files)\<close>. The
  parameter \<open>sha1_file\<close> is the function of line 17 on the current file system; it
  raises when a file cannot be read, and the comprehension stops there.
\<close>

fun new_hashes_loop ::
  "(path \<Rightarrow> error + string) \<Rightarrow> path \<Rightarrow> path list \<Rightarrow> hashes \<Rightarrow> error + hashes" where
  "new_hashes_loop sha1_file project_folder [] new_hashes = Inr new_hashes"
| "new_hashes_loop sha1_file project_folder (file # files) new_hashes =
     (case sha1_file (join project_folder file) of
        Inl e \<Rightarrow> Inl e
      | Inr h \<Rightarrow> new_hashes_loop sha1_file project_folder files (fmupd file h new_hashes))"

text \<open>Line 109, the set comprehension over \<^verbatim>\<open>new_hashes.items()\<close>.\<close>

definition changed_files :: "hashes \<Rightarrow> hashes \<Rightarrow> path set" where
  "changed_files old_hashes new_hashes =
     Set.filter
       (\<lambda>file. case fmlookup old_hashes file of
                 None \<Rightarrow> True
               | Some old \<Rightarrow> fmlookup new_hashes file \<noteq> Some old)
       (fmdom' new_hashes)"

text \<open>Lines 106 to 109 of \<^verbatim>\<open>tp\<close>: the new hash mapping and the change set.\<close>

definition tp_changed ::
  "(path \<Rightarrow> error + hashes) \<Rightarrow> (path \<Rightarrow> error + string) \<Rightarrow> path \<Rightarrow> path list \<Rightarrow> path list \<Rightarrow>
   error + (hashes \<times> path set)" where
  "tp_changed open_load sha1_file project_folder test_files source_files =
     (let old_hashes = load_hashes open_load project_folder
      in case new_hashes_loop sha1_file project_folder (test_files @ source_files) fmempty of
           Inl e \<Rightarrow> Inl e
         | Inr new_hashes \<Rightarrow> Inr (new_hashes, changed_files old_hashes new_hashes))"

section \<open>Graph construction: \<^verbatim>\<open>get_dependencies\<close>\<close>

text \<open>
  The extractor \<^verbatim>\<open>dext.extract\<close> is an external library. Its result \<^verbatim>\<open>files\<close>
  is a parameter: a dict, kept in insertion order, from a file identifier to the pair
  of its dependencies and its items \<^verbatim>\<open>(path, ext, src)\<close>. The dependencies are
  listed in the order in which the loop of line 59 meets them. The parameter \<open>rel\<close>
  is \<^verbatim>\<open>relpath(_, project_folder)\<close>.
\<close>

type_synonym item = "path \<times> string \<times> string"
type_synonym extracted = "(string \<times> (string list \<times> item list)) list"

text \<open>Lines 60 and 61: every item of the dependency is appended to \<^verbatim>\<open>dependencies[path1]\<close>.\<close>

fun append_items :: "(path \<Rightarrow> path) \<Rightarrow> path \<Rightarrow> item list \<Rightarrow> graph \<Rightarrow> error + graph" where
  "append_items rel path1 [] dependencies = Inr dependencies"
| "append_items rel path1 ((path2, ext2, src2) # items) dependencies =
     (case fmlookup dependencies path1 of
        None \<Rightarrow> Inl KeyError
      | Some l \<Rightarrow> append_items rel path1 items (fmupd path1 (l @ [rel path2]) dependencies))"

text \<open>Lines 59 to 61: \<^verbatim>\<open>files[dep]\<close> raises KeyError for an unknown identifier.\<close>

fun deps_loop ::
  "extracted \<Rightarrow> (path \<Rightarrow> path) \<Rightarrow> path \<Rightarrow> string list \<Rightarrow> graph \<Rightarrow> error + graph" where
  "deps_loop files rel path1 [] dependencies = Inr dependencies"
| "deps_loop files rel path1 (dep # deps) dependencies =
     (case map_of files dep of
        None \<Rightarrow> Inl KeyError
      | Some (deps2, items2) \<Rightarrow>
          (case append_items rel path1 items2 dependencies of
             Inl e \<Rightarrow> Inl e
           | Inr dependencies' \<Rightarrow> deps_loop files rel path1 deps dependencies'))"

text \<open>Lines 56 to 61: each item of the entry gets a fresh list, then the dependencies.\<close>

fun items_loop ::
  "extracted \<Rightarrow> (path \<Rightarrow> path) \<Rightarrow> string list \<Rightarrow> item list \<Rightarrow> graph \<Rightarrow> error + graph" where
  "items_loop files rel deps [] dependencies = Inr dependencies"
| "items_loop files rel deps ((path1, ext1, src1) # items) dependencies =
     (case deps_loop files rel (rel path1) deps (fmupd (rel path1) [] dependencies) of
        Inl e \<Rightarrow> Inl e
      | Inr dependencies' \<Rightarrow> items_loop files rel deps items dependencies')"

text \<open>Lines 54 to 61: the entries without dependencies are skipped.\<close>

fun values_loop ::
  "extracted \<Rightarrow> (path \<Rightarrow> path) \<Rightarrow> (string list \<times> item list) list \<Rightarrow> graph \<Rightarrow> error + graph" where
  "values_loop files rel [] dependencies = Inr dependencies"
| "values_loop files rel ((deps, items) # vs) dependencies =
     (if deps \<noteq> [] then
        (case items_loop files rel deps items dependencies of
           Inl e \<Rightarrow> Inl e
         | Inr dependencies' \<Rightarrow> values_loop files rel vs dependencies')
      else values_loop files rel vs dependencies)"

definition get_dependencies :: "extracted \<Rightarrow> (path \<Rightarrow> path) \<Rightarrow> error + graph" where
  "get_dependencies files rel = values_loop files rel (map snd files) fmempty"

section \<open>Notions used to state the properties\<close>

text \<open>The edges of a graph, and the nodes reachable from a node along them.\<close>

definition edges :: "graph \<Rightarrow> (path \<times> path) set" where
  "edges g = {(a, b). \<exists>deps. fmlookup g a = Some deps \<and> b \<in> set deps}"

definition reachable :: "graph \<Rightarrow> path \<Rightarrow> path set" where
  "reachable g a = (edges g)\<^sup>* `` {a}"

text \<open>Every edge from \<open>V\<close> leads into \<open>V\<close> or into \<open>Q\<close>.\<close>

definition closed_upto :: "graph \<Rightarrow> path set \<Rightarrow> path set \<Rightarrow> bool" where
  "closed_upto g V Q = (\<forall>v \<in> V. \<forall>w. (v, w) \<in> edges g \<longrightarrow> w \<in> V \<or> w \<in> Q)"

text \<open>
  The contract of the external model (section 6 of the specification): \<^verbatim>\<open>predict\<close>
  gives one score for each row given to it.
\<close>

definition one_score_per_row :: "((nat \<times> nat \<times> real) list \<Rightarrow> pyfloat list) \<Rightarrow> bool" where
  "one_score_per_row predict = (\<forall>features. length (predict features) = length features)"

text \<open>
  A ranked list in descending order: of two pairs the earlier has the greater score, or
  an equal score and the greater or the same path, by the comparisons of Python floats.
\<close>

definition descending :: "(pyfloat \<times> path) list \<Rightarrow> bool" where
  "descending ranked =
     sorted_wrt (\<lambda>(s1, t1) (s2, t2). float_lt s2 s1 \<or> float_eq s1 s2 \<and> t2 \<le> t1) ranked"

text \<open>The pair of a non-NaN score as a pair of the lexicographic order.\<close>

fun pair_key :: "pyfloat \<times> path \<Rightarrow> real \<times> path" where
  "pair_key (Float r, t) = (r, t)"
| "pair_key (NaN, t) = (0, t)"

text \<open>A model that answers NaN for the second of three rows.\<close>

definition nan_model :: "(nat \<times> nat \<times> real) list \<Rightarrow> pyfloat list" where
  "nan_model features = [Float (1 / 2), NaN, Float (3 / 4)]"

text \<open>
  The project-relative paths of a list of items, and those that realise one dependency
  of the extractor's output.
\<close>

definition item_paths :: "(path \<Rightarrow> path) \<Rightarrow> item list \<Rightarrow> path list" where
  "item_paths rel items = map (\<lambda>(path, ext, src). rel path) items"

definition resolve :: "extracted \<Rightarrow> (path \<Rightarrow> path) \<Rightarrow> string \<Rightarrow> path list" where
  "resolve files rel dep =
     (case map_of files dep of
        None \<Rightarrow> []
      | Some (deps2, items2) \<Rightarrow> item_paths rel items2)"

text \<open>An output of the extractor in which one dependency has two items.\<close>

definition extracted_example :: extracted where
  "extracted_example =
     [(''t'', ([''m''], [(''/p/test/t.py'', ''py'', ''test'')])),
      (''m'', ([], [(''/p/src/m.py'', ''py'', ''src''), (''/p/lib/m.py'', ''py'', ''lib'')]))]"

text \<open>A file system on which the prior hash file of project \<open>proj\<close> cannot be opened.\<close>

definition unreadable_state :: "path \<Rightarrow> error + hashes" where
  "unreadable_state p =
     (if p = ''proj/.fasttp/hashes.json'' then Inl OSError else Inr fmempty)"

text \<open>The graphs of the two scenarios of the specification.\<close>

definition diamond :: graph where
  "diamond = fmap_of_list [(''A'', [''S1'', ''S2'']), (''S1'', [''S3'']), (''S2'', [''S3''])]"

definition cycle :: graph where
  "cycle = fmap_of_list [(''A'', [''B'']), (''B'', [''A''])]"

section \<open>The loop, one iteration at a time\<close>

lemma bfs_loop_Nil: "bfs_loop g c [] st = Some st"
  by (subst bfs_loop.simps) simp

lemma bfs_loop_seen:
  "n \<in> visited st \<Longrightarrow> bfs_loop g c ((n, d) # rest) st = bfs_loop g c rest st"
  by (subst bfs_loop.simps) simp

lemma bfs_loop_key:
  "n \<notin> visited st \<Longrightarrow> fmlookup g n = Some deps \<Longrightarrow>
   bfs_loop g c ((n, d) # rest) st =
   bfs_loop g c (rest @ map (\<lambda>dep. (dep, d + 1)) deps)
     (count_changed c n d (st\<lparr>visited := insert n (visited st)\<rparr>))"
  by (subst bfs_loop.simps) simp

lemma bfs_loop_leaf:
  "n \<notin> visited st \<Longrightarrow> fmlookup g n = None \<Longrightarrow>
   bfs_loop g c ((n, d) # rest) st =
   bfs_loop g c rest (count_changed c n d (st\<lparr>visited := insert n (visited st)\<rparr>))"
  by (subst bfs_loop.simps) simp

lemma visited_count_changed [simp]: "visited (count_changed c n d st) = visited st"
  by (simp add: count_changed_def)

text \<open>
  Induction along the run of the loop. Every iteration either shortens the deque or
  visits a key of the graph that had not been visited, and the graph has finitely many
  keys.
\<close>

lemma bfs_loop_induct [case_names Nil Seen Key Leaf]:
  assumes Nil: "\<And>st. P [] st"
    and Seen: "\<And>n d rest st. n \<in> visited st \<Longrightarrow> P rest st \<Longrightarrow> P ((n, d) # rest) st"
    and Key: "\<And>n d rest st deps. n \<notin> visited st \<Longrightarrow> fmlookup g n = Some deps \<Longrightarrow>
       P (rest @ map (\<lambda>dep. (dep, d + 1)) deps)
         (count_changed c n d (st\<lparr>visited := insert n (visited st)\<rparr>)) \<Longrightarrow>
       P ((n, d) # rest) st"
    and Leaf: "\<And>n d rest st. n \<notin> visited st \<Longrightarrow> fmlookup g n = None \<Longrightarrow>
       P rest (count_changed c n d (st\<lparr>visited := insert n (visited st)\<rparr>)) \<Longrightarrow>
       P ((n, d) # rest) st"
  shows "P q (st :: bfs_state)"
proof -
  define R :: "(((path \<times> nat) list \<times> bfs_state) \<times> ((path \<times> nat) list \<times> bfs_state)) set"
    where "R = inv_image (less_than <*lex*> less_than)
                 (\<lambda>(q, st). (card (fmdom' g - visited st), length q))"
  have wfR: "wf R" unfolding R_def by (intro wf_inv_image wf_lex_prod wf_less_than)
  have "P (fst x) (snd x)" for x
  proof (induction x rule: wf_induct_rule[OF wfR])
    case (1 x)
    obtain q st where x: "x = (q, st)" by (cases x)
    show ?case
    proof (cases q)
      case Nil
      with x show ?thesis using assms(1) by simp
    next
      case (Cons a rest)
      obtain n d where a: "a = (n, d)" by (cases a)
      show ?thesis
      proof (cases "n \<in> visited st")
        case True
        have "((rest, st), x) \<in> R" by (simp add: R_def x Cons)
        from 1[OF this] have "P rest st" by simp
        with True show ?thesis by (simp add: x Cons a Seen)
      next
        case False
        let ?st = "count_changed c n d (st\<lparr>visited := insert n (visited st)\<rparr>)"
        show ?thesis
        proof (cases "fmlookup g n")
          case None
          then have "n \<notin> fmdom' g" by (simp add: fmdom'_notI)
          then have "fmdom' g - insert n (visited st) = fmdom' g - visited st" by auto
          then have "((rest, ?st), x) \<in> R" by (simp add: R_def x Cons)
          from 1[OF this] have "P rest ?st" by simp
          with False None show ?thesis by (simp add: x Cons a Leaf)
        next
          case (Some deps)
          then have mem: "n \<in> fmdom' g - visited st" using False by (auto intro: fmdom'I)
          have fin: "finite (fmdom' g - visited st)" by simp
          have "fmdom' g - insert n (visited st) = (fmdom' g - visited st) - {n}"
            by auto
          then have "card (fmdom' g - insert n (visited st)) < card (fmdom' g - visited st)"
            using card_Diff1_less[OF fin mem] by simp
          then have "((rest @ map (\<lambda>dep. (dep, d + 1)) deps, ?st), x) \<in> R"
            by (simp add: R_def x Cons)
          from 1[OF this] have "P (rest @ map (\<lambda>dep. (dep, d + 1)) deps) ?st" by simp
          with False Some show ?thesis by (simp add: x Cons a Key)
        qed
      qed
    qed
  qed
  from this[of "(q, st)"] show ?thesis by simp
qed

text \<open>The loop returns from every deque and every state.\<close>

lemma bfs_loop_total: "\<exists>st'. bfs_loop g c q st = Some st'"
  by (induction q st rule: bfs_loop_induct[of _ g c])
     (simp_all add: bfs_loop_Nil bfs_loop_seen bfs_loop_key bfs_loop_leaf)

section \<open>Invariants of the traversal\<close>

lemma count_changed_simps:
  "n \<in> c \<Longrightarrow> number_changed_dep (count_changed c n d st) = number_changed_dep st + 1"
  "n \<in> c \<Longrightarrow> len_shortest_path (count_changed c n d st) = min d (len_shortest_path st)"
  "n \<in> c \<Longrightarrow> avg_len_shortest_paths (count_changed c n d st) = avg_len_shortest_paths st + d"
  "n \<notin> c \<Longrightarrow> count_changed c n d st = st"
  by (auto simp: count_changed_def)

lemma bfs_loop_mono:
  "bfs_loop g c q st = Some st' \<Longrightarrow>
   number_changed_dep st \<le> number_changed_dep st' \<and>
   len_shortest_path st' \<le> len_shortest_path st \<and>
   visited st \<subseteq> visited st'"
proof (induction q st rule: bfs_loop_induct[of _ g c])
  case (Nil st)
  then show ?case by (simp add: bfs_loop_Nil)
next
  case (Seen n d rest st)
  then show ?case by (simp add: bfs_loop_seen)
next
  case (Key n d rest st deps)
  from Key.prems Key.hyps have "bfs_loop g c (rest @ map (\<lambda>dep. (dep, d + 1)) deps)
         (count_changed c n d (st\<lparr>visited := insert n (visited st)\<rparr>)) = Some st'"
    by (simp add: bfs_loop_key)
  from Key.IH[OF this] show ?case
    by (cases "n \<in> c") (auto simp: count_changed_simps)
next
  case (Leaf n d rest st)
  from Leaf.prems Leaf.hyps have "bfs_loop g c rest
         (count_changed c n d (st\<lparr>visited := insert n (visited st)\<rparr>)) = Some st'"
    by (simp add: bfs_loop_leaf)
  from Leaf.IH[OF this] show ?case
    by (cases "n \<in> c") (auto simp: count_changed_simps)
qed

lemma count_changed_avg:
  "number_changed_dep st * len_shortest_path st \<le> avg_len_shortest_paths st \<Longrightarrow>
   number_changed_dep (count_changed c n d st') * len_shortest_path (count_changed c n d st')
     \<le> avg_len_shortest_paths (count_changed c n d st')"
  if "number_changed_dep st' = number_changed_dep st"
     "len_shortest_path st' = len_shortest_path st"
     "avg_len_shortest_paths st' = avg_len_shortest_paths st"
proof (cases "n \<in> c")
  case False
  assume "number_changed_dep st * len_shortest_path st \<le> avg_len_shortest_paths st"
  with False that show ?thesis by (simp add: count_changed_simps)
next
  case True
  assume a: "number_changed_dep st * len_shortest_path st \<le> avg_len_shortest_paths st"
  have "number_changed_dep st * min d (len_shortest_path st)
          \<le> number_changed_dep st * len_shortest_path st"
    by (rule mult_le_mono2) simp
  with a have "number_changed_dep st * min d (len_shortest_path st) + min d (len_shortest_path st)
          \<le> avg_len_shortest_paths st + d" by linarith
  with True that show ?thesis by (simp add: count_changed_simps)
qed

lemma bfs_loop_avg:
  "bfs_loop g c q st = Some st' \<Longrightarrow>
   number_changed_dep st * len_shortest_path st \<le> avg_len_shortest_paths st \<Longrightarrow>
   number_changed_dep st' * len_shortest_path st' \<le> avg_len_shortest_paths st'"
proof (induction q st rule: bfs_loop_induct[of _ g c])
  case (Nil st)
  then show ?case by (simp add: bfs_loop_Nil)
next
  case (Seen n d rest st)
  then show ?case by (simp add: bfs_loop_seen)
next
  case (Key n d rest st deps)
  from Key.prems(1) Key.hyps have "bfs_loop g c (rest @ map (\<lambda>dep. (dep, d + 1)) deps)
         (count_changed c n d (st\<lparr>visited := insert n (visited st)\<rparr>)) = Some st'"
    by (simp add: bfs_loop_key)
  moreover have "number_changed_dep (count_changed c n d (st\<lparr>visited := insert n (visited st)\<rparr>)) *
      len_shortest_path (count_changed c n d (st\<lparr>visited := insert n (visited st)\<rparr>))
      \<le> avg_len_shortest_paths (count_changed c n d (st\<lparr>visited := insert n (visited st)\<rparr>))"
    by (rule count_changed_avg[OF _ _ _ Key.prems(2)]) simp_all
  ultimately show ?case by (rule Key.IH)
next
  case (Leaf n d rest st)
  from Leaf.prems(1) Leaf.hyps have "bfs_loop g c rest
         (count_changed c n d (st\<lparr>visited := insert n (visited st)\<rparr>)) = Some st'"
    by (simp add: bfs_loop_leaf)
  moreover have "number_changed_dep (count_changed c n d (st\<lparr>visited := insert n (visited st)\<rparr>)) *
      len_shortest_path (count_changed c n d (st\<lparr>visited := insert n (visited st)\<rparr>))
      \<le> avg_len_shortest_paths (count_changed c n d (st\<lparr>visited := insert n (visited st)\<rparr>))"
    by (rule count_changed_avg[OF _ _ _ Leaf.prems(2)]) simp_all
  ultimately show ?case by (rule Leaf.IH)
qed

lemma reachable_refl: "a \<in> reachable g a"
  by (simp add: reachable_def)

lemma reachable_succ:
  "fmlookup g a = Some deps \<Longrightarrow> b \<in> set deps \<Longrightarrow> reachable g b \<subseteq> reachable g a"
proof
  fix x assume l: "fmlookup g a = Some deps" and b: "b \<in> set deps" and x: "x \<in> reachable g b"
  from l b have "(a, b) \<in> edges g" by (auto simp: edges_def)
  moreover from x have "(b, x) \<in> (edges g)\<^sup>*" by (simp add: reachable_def)
  ultimately have "(a, x) \<in> (edges g)\<^sup>*" by (rule converse_rtrancl_into_rtrancl)
  then show "x \<in> reachable g a" by (simp add: reachable_def)
qed

lemma bfs_loop_unreached:
  "bfs_loop g c q st = Some st' \<Longrightarrow>
   \<forall>n \<in> fst ` set q. reachable g n \<inter> c = {} \<Longrightarrow>
   number_changed_dep st' = number_changed_dep st \<and>
   len_shortest_path st' = len_shortest_path st \<and>
   avg_len_shortest_paths st' = avg_len_shortest_paths st"
proof (induction q st rule: bfs_loop_induct[of _ g c])
  case (Nil st)
  then show ?case by (simp add: bfs_loop_Nil)
next
  case (Seen n d rest st)
  then show ?case by (simp add: bfs_loop_seen)
next
  case (Key n d rest st deps)
  from Key.prems(2) have nc: "n \<notin> c" using reachable_refl[of n g] by auto
  from Key.prems(1) Key.hyps have run: "bfs_loop g c (rest @ map (\<lambda>dep. (dep, d + 1)) deps)
         (count_changed c n d (st\<lparr>visited := insert n (visited st)\<rparr>)) = Some st'"
    by (simp add: bfs_loop_key)
  have "\<forall>m \<in> fst ` set (rest @ map (\<lambda>dep. (dep, d + 1)) deps). reachable g m \<inter> c = {}"
  proof
    fix m assume "m \<in> fst ` set (rest @ map (\<lambda>dep. (dep, d + 1)) deps)"
    then consider "m \<in> fst ` set rest" | "m \<in> set deps" by force
    then show "reachable g m \<inter> c = {}"
    proof cases
      case 1
      with Key.prems(2) show ?thesis by auto
    next
      case 2
      from reachable_succ[OF Key.hyps(2) 2] Key.prems(2) show ?thesis by auto
    qed
  qed
  from Key.IH[OF run this] nc show ?case by (simp add: count_changed_simps)
next
  case (Leaf n d rest st)
  from Leaf.prems(2) have nc: "n \<notin> c" using reachable_refl[of n g] by auto
  from Leaf.prems(1) Leaf.hyps have run: "bfs_loop g c rest
         (count_changed c n d (st\<lparr>visited := insert n (visited st)\<rparr>)) = Some st'"
    by (simp add: bfs_loop_leaf)
  from Leaf.prems(2) have "\<forall>m \<in> fst ` set rest. reachable g m \<inter> c = {}" by simp
  from Leaf.IH[OF run this] nc show ?case by (simp add: count_changed_simps)
qed

text \<open>Every visited node is reachable from a node of the deque, or was visited before.\<close>

lemma bfs_loop_visited_sound:
  "bfs_loop g c q st = Some st' \<Longrightarrow>
   visited st' \<subseteq> visited st \<union> (\<Union>n \<in> fst ` set q. reachable g n)"
proof (induction q st rule: bfs_loop_induct[of _ g c])
  case (Nil st)
  then show ?case by (simp add: bfs_loop_Nil)
next
  case (Seen n d rest st)
  then show ?case by (auto simp: bfs_loop_seen)
next
  case (Key n d rest st deps)
  from Key.prems(1) Key.hyps have run: "bfs_loop g c (rest @ map (\<lambda>dep. (dep, d + 1)) deps)
         (count_changed c n d (st\<lparr>visited := insert n (visited st)\<rparr>)) = Some st'"
    by (simp add: bfs_loop_key)
  have "(\<Union>m \<in> set deps. reachable g m) \<subseteq> reachable g n"
    using reachable_succ[OF Key.hyps(2)] by auto
  with Key.IH[OF run] reachable_refl[of n g] show ?case
    by (auto simp: image_Un image_image)
next
  case (Leaf n d rest st)
  from Leaf.prems(1) Leaf.hyps have run: "bfs_loop g c rest
         (count_changed c n d (st\<lparr>visited := insert n (visited st)\<rparr>)) = Some st'"
    by (simp add: bfs_loop_leaf)
  from Leaf.IH[OF run] reachable_refl[of n g] show ?case by auto
qed

text \<open>When the loop ends, the visited set is closed under the edges.\<close>

lemma bfs_loop_visited_complete:
  "bfs_loop g c q st = Some st' \<Longrightarrow>
   closed_upto g (visited st) (fst ` set q) \<Longrightarrow>
   fst ` set q \<subseteq> visited st' \<and> closed_upto g (visited st') {}"
proof (induction q st rule: bfs_loop_induct[of _ g c])
  case (Nil st)
  then show ?case by (simp add: bfs_loop_Nil closed_upto_def)
next
  case (Seen n d rest st)
  from Seen.prems(1) Seen.hyps have run: "bfs_loop g c rest st = Some st'"
    by (simp add: bfs_loop_seen)
  from Seen.prems(2) Seen.hyps have "closed_upto g (visited st) (fst ` set rest)"
    by (auto simp: closed_upto_def)
  from Seen.IH[OF run this] bfs_loop_mono[OF run] Seen.hyps show ?case by auto
next
  case (Key n d rest st deps)
  let ?st = "count_changed c n d (st\<lparr>visited := insert n (visited st)\<rparr>)"
  let ?q = "rest @ map (\<lambda>dep. (dep, d + 1)) deps"
  from Key.prems(1) Key.hyps have run: "bfs_loop g c ?q ?st = Some st'"
    by (simp add: bfs_loop_key)
  have "closed_upto g (visited ?st) (fst ` set ?q)"
    unfolding closed_upto_def
  proof (intro ballI allI impI)
    fix v w assume v: "v \<in> visited ?st" and e: "(v, w) \<in> edges g"
    show "w \<in> visited ?st \<or> w \<in> fst ` set ?q"
    proof (cases "v = n")
      case True
      with e Key.hyps(2) have "w \<in> set deps" by (auto simp: edges_def)
      then show ?thesis by (force simp: image_Un)
    next
      case False
      with v have "v \<in> visited st" by simp
      with Key.prems(2) e have "w \<in> visited st \<or> w \<in> fst ` set ((n, d) # rest)"
        by (auto simp: closed_upto_def)
      then show ?thesis by (auto simp: image_Un)
    qed
  qed
  from Key.IH[OF run this] bfs_loop_mono[OF run] show ?case by (auto simp: image_Un)
next
  case (Leaf n d rest st)
  let ?st = "count_changed c n d (st\<lparr>visited := insert n (visited st)\<rparr>)"
  from Leaf.prems(1) Leaf.hyps have run: "bfs_loop g c rest ?st = Some st'"
    by (simp add: bfs_loop_leaf)
  have "closed_upto g (visited ?st) (fst ` set rest)"
    unfolding closed_upto_def
  proof (intro ballI allI impI)
    fix v w assume v: "v \<in> visited ?st" and e: "(v, w) \<in> edges g"
    show "w \<in> visited ?st \<or> w \<in> fst ` set rest"
    proof (cases "v = n")
      case True
      with e Leaf.hyps(2) show ?thesis by (auto simp: edges_def)
    next
      case False
      with v have "v \<in> visited st" by simp
      with Leaf.prems(2) e have "w \<in> visited st \<or> w \<in> fst ` set ((n, d) # rest)"
        by (auto simp: closed_upto_def)
      then show ?thesis by auto
    qed
  qed
  from Leaf.IH[OF run this] bfs_loop_mono[OF run] show ?case by auto
qed

lemma closed_reachable:
  assumes "closed_upto g V {}" and "a \<in> V"
  shows "reachable g a \<subseteq> V"
proof
  fix x assume "x \<in> reachable g a"
  then have "(a, x) \<in> (edges g)\<^sup>*" by (simp add: reachable_def)
  then show "x \<in> V"
    using assms by (induction rule: rtrancl_induct) (auto simp: closed_upto_def)
qed

lemma bfs_visited_reachable:
  assumes "bfs_loop g c [(test, 0)] bfs_init = Some st'"
  shows "visited st' = reachable g test"
proof
  from bfs_loop_visited_sound[OF assms] show "visited st' \<subseteq> reachable g test"
    by (simp add: bfs_init_def)
  have "closed_upto g (visited bfs_init) (fst ` set [(test, 0::nat)])"
    by (simp add: closed_upto_def bfs_init_def)
  from bfs_loop_visited_complete[OF assms this]
  have "test \<in> visited st'" and "closed_upto g (visited st') {}" by simp_all
  then show "reachable g test \<subseteq> visited st'" by (rule closed_reachable[rotated])
qed

text \<open>Each node is counted when it is visited, and it is visited once.\<close>

lemma bfs_loop_count:
  "bfs_loop g c q st = Some st' \<Longrightarrow> finite (visited st) \<Longrightarrow>
   finite (visited st') \<and>
   number_changed_dep st' = number_changed_dep st + card ((visited st' - visited st) \<inter> c)"
proof (induction q st rule: bfs_loop_induct[of _ g c])
  case (Nil st)
  then show ?case by (simp add: bfs_loop_Nil)
next
  case (Seen n d rest st)
  then show ?case by (simp add: bfs_loop_seen)
next
  case (Key n d rest st deps)
  let ?st = "count_changed c n d (st\<lparr>visited := insert n (visited st)\<rparr>)"
  from Key.prems(1) Key.hyps have run: "bfs_loop g c (rest @ map (\<lambda>dep. (dep, d + 1)) deps) ?st = Some st'"
    by (simp add: bfs_loop_key)
  from Key.prems(2) have "finite (visited ?st)" by simp
  from Key.IH[OF run this] have fin: "finite (visited st')"
    and cnt: "number_changed_dep st' =
       number_changed_dep ?st + card ((visited st' - insert n (visited st)) \<inter> c)" by simp_all
  from bfs_loop_mono[OF run] have n: "n \<in> visited st'" by simp
  show ?case
  proof (cases "n \<in> c")
    case True
    have "(visited st' - visited st) \<inter> c = insert n ((visited st' - insert n (visited st)) \<inter> c)"
      using n True Key.hyps(1) by auto
    moreover have "n \<notin> (visited st' - insert n (visited st)) \<inter> c" by simp
    moreover have "finite ((visited st' - insert n (visited st)) \<inter> c)" using fin by simp
    ultimately have "card ((visited st' - visited st) \<inter> c)
        = Suc (card ((visited st' - insert n (visited st)) \<inter> c))" by simp
    with cnt True fin show ?thesis by (simp add: count_changed_simps)
  next
    case False
    then have "(visited st' - visited st) \<inter> c = (visited st' - insert n (visited st)) \<inter> c"
      by auto
    with cnt False fin show ?thesis by (simp add: count_changed_simps)
  qed
next
  case (Leaf n d rest st)
  let ?st = "count_changed c n d (st\<lparr>visited := insert n (visited st)\<rparr>)"
  from Leaf.prems(1) Leaf.hyps have run: "bfs_loop g c rest ?st = Some st'"
    by (simp add: bfs_loop_leaf)
  from Leaf.prems(2) have "finite (visited ?st)" by simp
  from Leaf.IH[OF run this] have fin: "finite (visited st')"
    and cnt: "number_changed_dep st' =
       number_changed_dep ?st + card ((visited st' - insert n (visited st)) \<inter> c)" by simp_all
  from bfs_loop_mono[OF run] have n: "n \<in> visited st'" by simp
  show ?case
  proof (cases "n \<in> c")
    case True
    have "(visited st' - visited st) \<inter> c = insert n ((visited st' - insert n (visited st)) \<inter> c)"
      using n True Leaf.hyps(1) by auto
    moreover have "n \<notin> (visited st' - insert n (visited st)) \<inter> c" by simp
    moreover have "finite ((visited st' - insert n (visited st)) \<inter> c)" using fin by simp
    ultimately have "card ((visited st' - visited st) \<inter> c)
        = Suc (card ((visited st' - insert n (visited st)) \<inter> c))" by simp
    with cnt True fin show ?thesis by (simp add: count_changed_simps)
  next
    case False
    then have "(visited st' - visited st) \<inter> c = (visited st' - insert n (visited st)) \<inter> c"
      by auto
    with cnt False fin show ?thesis by (simp add: count_changed_simps)
  qed
qed

lemma bfs_count_reachable:
  assumes "bfs_loop g c [(test, 0)] bfs_init = Some st'"
  shows "number_changed_dep st' = card (reachable g test \<inter> c)"
  using bfs_loop_count[OF assms] bfs_visited_reachable[OF assms]
  by (simp add: bfs_init_def)

lemmas bfs_eval =
  bfs_features_def bfs_init_def bfs_result_def
  bfs_loop_Nil bfs_loop_seen bfs_loop_key bfs_loop_leaf count_changed_def

lemma bfs_features_total: "\<exists>r. bfs_features test g c = Some r"
proof -
  obtain st' where "bfs_loop g c [(test, 0)] bfs_init = Some st'"
    using bfs_loop_total by blast
  then have "bfs_features test g c = Some (bfs_result st')"
    by (simp add: bfs_features_def)
  then show ?thesis ..
qed

section \<open>Properties of the feature extraction\<close>

text \<open>
  Claim C4. A changed node is counted once, however many dependency paths lead to it:
  the count returned by \<open>bfs_features\<close> is the number of changed nodes reachable from
  the test. On the diamond with only S3 changed the result is \<open>(1, 2, 2.0)\<close>.
\<close>

theorem bfs_features_counts_once:
  "(\<exists>m a. bfs_features test deps changed
            = Some (card (reachable deps test \<inter> changed), m, a)) \<and>
   bfs_features ''A'' diamond {''S3''} = Some (1, 2, 2)"
proof
  obtain st' where run: "bfs_loop deps changed [(test, 0)] bfs_init = Some st'"
    using bfs_loop_total by blast
  then have "bfs_features test deps changed = Some (bfs_result st')"
    by (simp add: bfs_features_def)
  with bfs_count_reachable[OF run]
  show "\<exists>m a. bfs_features test deps changed
            = Some (card (reachable deps test \<inter> changed), m, a)"
    by (simp add: bfs_result_def)
  show "bfs_features ''A'' diamond {''S3''} = Some (1, 2, 2)"
    by (simp add: diamond_def bfs_eval)
qed

text \<open>
  Claim C5. \<open>bfs_features\<close> returns on every graph, cyclic or not. On the cycle
  A \<rightarrow> B \<rightarrow> A with neither node changed, the traversal from A returns with a count
  of 0.
\<close>

theorem bfs_features_terminates:
  "(\<exists>r. bfs_features test deps changed = Some r) \<and>
   (''A'' \<notin> changed' \<and> ''B'' \<notin> changed' \<longrightarrow>
      bfs_features ''A'' cycle changed' = Some (0, 999999, 999999))"
proof
  show "\<exists>r. bfs_features test deps changed = Some r"
    by (rule bfs_features_total)
  show "''A'' \<notin> changed' \<and> ''B'' \<notin> changed' \<longrightarrow>
      bfs_features ''A'' cycle changed' = Some (0, 999999, 999999)"
    by (simp add: cycle_def bfs_eval)
qed

theorem bfs_features_terminates_witness:
  "(\<exists>r. bfs_features ''B'' cycle {''B''} = Some r) \<and>
   ''A'' \<notin> {''C''} \<and> ''B'' \<notin> {''C''} \<and>
   bfs_features ''A'' cycle {''C''} = Some (0, 999999, 999999)"
  using bfs_features_terminates[of "''B''" cycle "{''B''}" "{''C''}"] by simp

text \<open>
  Claim C6. When no changed node is reachable from the test, the count is 0 and both
  distances are the sentinel 999999.
\<close>

theorem bfs_features_unreached:
  assumes "reachable deps test \<inter> changed = {}"
  shows "bfs_features test deps changed = Some (0, 999999, 999999)"
proof -
  obtain st' where run: "bfs_loop deps changed [(test, 0)] bfs_init = Some st'"
    using bfs_loop_total by blast
  from assms have "\<forall>n \<in> fst ` set [(test, 0::nat)]. reachable deps n \<inter> changed = {}"
    by simp
  from bfs_loop_unreached[OF run this]
  have "bfs_result st' = (0, 999999, 999999)"
    by (simp add: bfs_result_def bfs_init_def)
  with run show ?thesis by (simp add: bfs_features_def)
qed

theorem bfs_features_unreached_witness:
  "reachable diamond ''S1'' \<inter> {''A'', ''S2''} = {} \<and>
   bfs_features ''S1'' diamond {''A'', ''S2''} = Some (0, 999999, 999999)"
proof -
  have "\<exists>st'. bfs_loop diamond {} [(''S1'', 0)] bfs_init = Some st' \<and>
          visited st' = {''S1'', ''S3''}"
    by (auto simp: diamond_def bfs_eval)
  then obtain st' where "bfs_loop diamond {} [(''S1'', 0)] bfs_init = Some st'"
    and "visited st' = {''S1'', ''S3''}" by blast
  with bfs_visited_reachable have "reachable diamond ''S1'' = {''S1'', ''S3''}"
    by blast
  then have h: "reachable diamond ''S1'' \<inter> {''A'', ''S2''} = {}" by simp
  from h bfs_features_unreached[OF h] show ?thesis by simp
qed

text \<open>
  Claim C10. When the count returned by \<open>bfs_features\<close> is positive, the minimum
  distance is at least 0 and at most the average distance.
\<close>

theorem bfs_features_min_le_avg:
  "\<exists>cnt m a. bfs_features test deps changed = Some (cnt, m, a) \<and>
     (0 < cnt \<longrightarrow> 0 \<le> m \<and> real m \<le> a)"
proof -
  obtain st' where run: "bfs_loop deps changed [(test, 0)] bfs_init = Some st'"
    using bfs_loop_total by blast
  have "number_changed_dep bfs_init * len_shortest_path bfs_init
          \<le> avg_len_shortest_paths bfs_init" by (simp add: bfs_init_def)
  from bfs_loop_avg[OF run this]
  have le: "number_changed_dep st' * len_shortest_path st' \<le> avg_len_shortest_paths st'" .
  have "real (len_shortest_path st')
          \<le> real (avg_len_shortest_paths st') / real (number_changed_dep st')"
    if pos: "0 < number_changed_dep st'"
  proof -
    from le have "real (number_changed_dep st' * len_shortest_path st')
                    \<le> real (avg_len_shortest_paths st')"
      by (rule iffD2[OF of_nat_le_iff])
    then have "real (len_shortest_path st') * real (number_changed_dep st')
                    \<le> real (avg_len_shortest_paths st')"
      by (simp add: mult.commute)
    with pos show ?thesis by (simp add: pos_le_divide_eq)
  qed
  moreover from run have "bfs_features test deps changed = Some (bfs_result st')"
    by (simp add: bfs_features_def)
  ultimately show ?thesis by (simp add: bfs_result_def)
qed

theorem bfs_features_min_le_avg_witness:
  "bfs_features ''A'' diamond {''S1'', ''S3''} = Some (2, 1, 3 / 2) \<and>
   (0::nat) < 2 \<and> (0::nat) \<le> 1 \<and> real 1 \<le> 3 / 2"
proof -
  have e: "bfs_features ''A'' diamond {''S1'', ''S3''} = Some (2, 1, 3 / 2)"
    by (simp add: diamond_def bfs_eval)
  from bfs_features_min_le_avg[of "''A''" diamond "{''S1'', ''S3''}"] e
  show ?thesis by simp
qed

section \<open>Properties of the ranking\<close>

lemma mset_insert_from_right:
  "mset (insert_from_right lt x ys) = add_mset x (mset ys)"
  by (induction ys) simp_all

lemma mset_foldl_insert:
  "mset (foldl (\<lambda>prefix pivot. insert_from_right lt pivot prefix) acc xs)
     = mset acc + mset xs"
  by (induction xs arbitrary: acc) (simp_all add: mset_insert_from_right)

lemma mset_list_sort: "mset (list_sort lt xs) = mset xs"
  by (simp add: list_sort_def mset_foldl_insert)

lemma mset_sorted_reverse: "mset (sorted_reverse xs) = mset xs"
  by (simp add: sorted_reverse_def mset_list_sort)

lemma set_sorted_reverse: "set (sorted_reverse xs) = set xs"
  using mset_sorted_reverse[of xs] by (metis set_mset_mset)

lemma length_sorted_reverse: "length (sorted_reverse xs) = length xs"
  using mset_sorted_reverse[of xs] by (metis size_mset)

text \<open>
  Where \<open>lt\<close> is the strict order of a key, the prefix stays in descending order of
  the key.
\<close>

lemma insert_from_right_sorted:
  fixes f :: "'a \<Rightarrow> 'k::linorder"
  assumes "\<forall>y \<in> set ys. lt x y \<longleftrightarrow> f x < f y"
    and "sorted_wrt (\<lambda>a b. f b \<le> f a) ys"
  shows "sorted_wrt (\<lambda>a b. f b \<le> f a) (insert_from_right lt x ys)"
  using assms
proof (induction ys)
  case Nil
  then show ?case by simp
next
  case (Cons y ys)
  show ?case
  proof (cases "lt x y")
    case True
    with Cons.prems(1) have xy: "f x < f y" by simp
    from Cons.prems have ih: "sorted_wrt (\<lambda>a b. f b \<le> f a) (insert_from_right lt x ys)"
      by (intro Cons.IH) simp_all
    have "set (insert_from_right lt x ys) = insert x (set ys)"
      using mset_insert_from_right[of lt x ys] by (metis set_mset_mset set_mset_add_mset_insert)
    with Cons.prems(2) xy have "\<forall>b \<in> set (insert_from_right lt x ys). f b \<le> f y"
      by auto
    with ih True show ?thesis by simp
  next
    case False
    with Cons.prems(1) have "f y \<le> f x" by auto
    with Cons.prems(2) have "\<forall>b \<in> set (y # ys). f b \<le> f x" by auto
    with Cons.prems(2) False show ?thesis by simp
  qed
qed

lemma foldl_insert_sorted:
  fixes f :: "'a \<Rightarrow> 'k::linorder"
  assumes "\<forall>x \<in> set acc \<union> set xs. \<forall>y \<in> set acc \<union> set xs. lt x y \<longleftrightarrow> f x < f y"
    and "sorted_wrt (\<lambda>a b. f b \<le> f a) acc"
  shows "sorted_wrt (\<lambda>a b. f b \<le> f a)
           (foldl (\<lambda>prefix pivot. insert_from_right lt pivot prefix) acc xs)"
  using assms
proof (induction xs arbitrary: acc)
  case Nil
  then show ?case by simp
next
  case (Cons x xs)
  have s: "set (insert_from_right lt x acc) = insert x (set acc)"
    using mset_insert_from_right[of lt x acc] by (metis set_mset_mset set_mset_add_mset_insert)
  have "sorted_wrt (\<lambda>a b. f b \<le> f a) (insert_from_right lt x acc)"
    using Cons.prems by (intro insert_from_right_sorted) simp_all
  moreover have "\<forall>a \<in> set (insert_from_right lt x acc) \<union> set xs.
                   \<forall>b \<in> set (insert_from_right lt x acc) \<union> set xs. lt a b \<longleftrightarrow> f a < f b"
    using Cons.prems(1) unfolding s by simp
  ultimately show ?case using Cons.IH by simp
qed

lemma tuple_lt_key:
  "fst x \<noteq> NaN \<Longrightarrow> fst y \<noteq> NaN \<Longrightarrow> tuple_lt x y \<longleftrightarrow> pair_key x < pair_key y"
proof -
  assume "fst x \<noteq> NaN" and "fst y \<noteq> NaN"
  then obtain a s b t where "x = (Float a, s)" and "y = (Float b, t)"
    by (metis pyfloat.exhaust prod.collapse)
  then show ?thesis by (auto simp: tuple_lt_def)
qed

lemma key_descending:
  "fst x \<noteq> NaN \<Longrightarrow> fst y \<noteq> NaN \<Longrightarrow> pair_key y \<le> pair_key x \<Longrightarrow>
   (case x of (s1, t1) \<Rightarrow> \<lambda>(s2, t2). float_lt s2 s1 \<or> float_eq s1 s2 \<and> t2 \<le> t1) y"
proof -
  assume "fst x \<noteq> NaN" and "fst y \<noteq> NaN" and k: "pair_key y \<le> pair_key x"
  then obtain a s b t where "x = (Float a, s)" and "y = (Float b, t)"
    by (metis pyfloat.exhaust prod.collapse)
  with k show ?thesis by auto
qed

lemma sorted_reverse_descending:
  assumes "NaN \<notin> fst ` set xs"
  shows "descending (sorted_reverse xs)"
proof -
  let ?ys = "foldl (\<lambda>prefix pivot. insert_from_right tuple_lt pivot prefix) [] (rev xs)"
  have eq: "sorted_reverse xs = ?ys"
    by (simp add: sorted_reverse_def list_sort_def)
  from assms have nn: "\<forall>x \<in> set xs. fst x \<noteq> NaN" by force
  then have "\<forall>x \<in> set [] \<union> set (rev xs). \<forall>y \<in> set [] \<union> set (rev xs).
          tuple_lt x y \<longleftrightarrow> pair_key x < pair_key y"
    by (simp add: tuple_lt_key)
  then have s: "sorted_wrt (\<lambda>a b. pair_key b \<le> pair_key a) ?ys"
    by (rule foldl_insert_sorted) simp
  have "set ?ys = set xs" using set_sorted_reverse[of xs] eq by simp
  with nn have "\<forall>x \<in> set ?ys. fst x \<noteq> NaN" by simp
  with s have "sorted_wrt (\<lambda>(s1, t1) (s2, t2). float_lt s2 s1 \<or> float_eq s1 s2 \<and> t2 \<le> t1) ?ys"
    by (elim sorted_wrt_mono_rel[rotated]) (simp add: key_descending)
  with eq show ?thesis by (simp add: descending_def)
qed

text \<open>A list of two or more pairs, one of them with the score NaN, is in no order.\<close>

lemma nan_not_descending:
  assumes "(NaN, t) \<in> set ranked" and "2 \<le> length ranked"
  shows "\<not> descending ranked"
proof
  assume d: "descending ranked"
  from assms(1) obtain i where i: "i < length ranked" "ranked ! i = (NaN, t)"
    by (auto simp: in_set_conv_nth)
  from assms(2) i(1) obtain j where j: "j < length ranked" "j \<noteq> i"
    by (cases "i = 0") (auto intro: that[of 0] that[of 1])
  obtain s u where r: "ranked ! j = (s, u)" by (cases "ranked ! j")
  from j consider "i < j" | "j < i" by linarith
  then show False
  proof cases
    case 1
    from d have "sorted_wrt (\<lambda>(s1, t1) (s2, t2).
        float_lt s2 s1 \<or> float_eq s1 s2 \<and> t2 \<le> t1) ranked"
      by (simp add: descending_def)
    from sorted_wrt_nth_less[OF this 1 j(1)] i(2) r
    show False by (cases s) simp_all
  next
    case 2
    from d have "sorted_wrt (\<lambda>(s1, t1) (s2, t2).
        float_lt s2 s1 \<or> float_eq s1 s2 \<and> t2 \<le> t1) ranked"
      by (simp add: descending_def)
    from sorted_wrt_nth_less[OF this 2 i(1)] i(2) r
    show False by (cases s) simp_all
  qed
qed

lemma those_map_Some:
  "\<forall>x \<in> set xs. \<exists>y. f x = Some y \<Longrightarrow>
   \<exists>ys. those (map f xs) = Some ys \<and> length ys = length xs"
proof (induction xs)
  case Nil
  then show ?case by simp
next
  case (Cons x xs)
  then obtain y ys where "f x = Some y" and "those (map f xs) = Some ys"
    and "length ys = length xs" by auto
  then show ?case by simp
qed

text \<open>The score list of lines 93 and 94, for the feature rows \<open>features\<close>.\<close>

lemma rank_returns:
  obtains features where
    "length features = length tests"
    "rank predict tests deps changed =
       Some (sorted_reverse
         (zip (map (\<lambda>(v, test). if test \<in> changed then Float 1 else v)
                 (zip (predict features) tests)) tests))"
proof -
  have "\<forall>test \<in> set tests. \<exists>r. bfs_features test deps changed = Some r"
    using bfs_features_total by blast
  from those_map_Some[OF this] obtain features
    where "those (map (\<lambda>test. bfs_features test deps changed) tests) = Some features"
      and "length features = length tests" by blast
  then show thesis by (intro that[of features]) (simp_all add: rank_def)
qed

lemma zip_scores_overridden:
  "(s, t) \<in> set (zip (map (\<lambda>(v, test). if test \<in> changed then Float 1 else v)
                        (zip vs tests)) tests)
   \<Longrightarrow> t \<in> changed \<Longrightarrow> s = Float 1"
proof (induction tests arbitrary: vs)
  case Nil
  then show ?case by simp
next
  case (Cons a tests)
  then show ?case by (cases vs) auto
qed

lemma zip_scores_present:
  "length vs = length tests \<Longrightarrow> t \<in> set tests \<Longrightarrow> t \<in> changed \<Longrightarrow>
   (Float 1, t) \<in> set (zip (map (\<lambda>(v, test). if test \<in> changed then Float 1 else v)
                               (zip vs tests)) tests)"
proof (induction tests arbitrary: vs)
  case Nil
  then show ?case by simp
next
  case (Cons a tests)
  then show ?case by (cases vs) auto
qed

lemma zip_scores_snd:
  "length vs = length tests \<Longrightarrow>
   map snd (zip (map (\<lambda>(v, test). if test \<in> changed then Float 1 else v)
                   (zip vs tests)) tests) = tests"
  by simp

lemmas rank_eval =
  rank_def sorted_reverse_def list_sort_def tuple_lt_def bfs_eval

text \<open>
  Claim C1. A test in the change set has the score 1.0 wherever it stands in the ranked
  list, whatever the model answers, and it is in the list once the model gives one score
  per row; its own features have a count of at least 1 and a minimum distance of 0.
\<close>

theorem changed_test_overridden:
  assumes "test \<in> changed"
  shows "(\<exists>ranked. rank predict tests deps changed = Some ranked \<and>
            (\<forall>score. (score, test) \<in> set ranked \<longrightarrow> score = Float 1) \<and>
            (one_score_per_row predict \<and> test \<in> set tests \<longrightarrow>
               (Float 1, test) \<in> set ranked)) \<and>
         (\<exists>cnt a. bfs_features test deps changed = Some (cnt, 0, a) \<and> 1 \<le> cnt)"
proof
  obtain features where len: "length features = length tests"
    and r: "rank predict tests deps changed =
       Some (sorted_reverse
         (zip (map (\<lambda>(v, test). if test \<in> changed then Float 1 else v)
                 (zip (predict features) tests)) tests))"
    by (rule rank_returns)
  let ?ranked = "sorted_reverse
         (zip (map (\<lambda>(v, test). if test \<in> changed then Float 1 else v)
                 (zip (predict features) tests)) tests)"
  have "\<forall>score. (score, test) \<in> set ?ranked \<longrightarrow> score = Float 1"
    using assms by (auto simp: set_sorted_reverse dest: zip_scores_overridden)
  moreover have "one_score_per_row predict \<and> test \<in> set tests \<longrightarrow>
                   (Float 1, test) \<in> set ?ranked"
  proof
    assume a: "one_score_per_row predict \<and> test \<in> set tests"
    then have "length (predict features) = length tests"
      using len by (simp add: one_score_per_row_def)
    from zip_scores_present[OF this _ assms] a show "(Float 1, test) \<in> set ?ranked"
      by (simp add: set_sorted_reverse)
  qed
  ultimately show "\<exists>ranked. rank predict tests deps changed = Some ranked \<and>
            (\<forall>score. (score, test) \<in> set ranked \<longrightarrow> score = Float 1) \<and>
            (one_score_per_row predict \<and> test \<in> set tests \<longrightarrow>
               (Float 1, test) \<in> set ranked)"
    using r by blast
next
  let ?st = "count_changed changed test 0 (bfs_init\<lparr>visited := insert test (visited bfs_init)\<rparr>)"
  obtain st' where run: "bfs_loop deps changed [(test, 0)] bfs_init = Some st'"
    using bfs_loop_total by blast
  have first: "number_changed_dep ?st = 1 \<and> len_shortest_path ?st = 0"
    using assms by (simp add: count_changed_simps bfs_init_def)
  have "\<exists>q. bfs_loop deps changed [(test, 0)] bfs_init = bfs_loop deps changed q ?st"
  proof (cases "fmlookup deps test")
    case None
    then have "bfs_loop deps changed [(test, 0)] bfs_init = bfs_loop deps changed [] ?st"
      by (intro bfs_loop_leaf) (simp_all add: bfs_init_def)
    then show ?thesis ..
  next
    case (Some ds)
    then have "bfs_loop deps changed [(test, 0)] bfs_init
        = bfs_loop deps changed ([] @ map (\<lambda>dep. (dep, 0 + 1)) ds) ?st"
      by (intro bfs_loop_key) (simp_all add: bfs_init_def)
    then show ?thesis ..
  qed
  then obtain q where "bfs_loop deps changed q ?st = Some st'" using run by auto
  from bfs_loop_mono[OF this] first
  have "1 \<le> number_changed_dep st' \<and> len_shortest_path st' = 0" by simp
  moreover from run have "bfs_features test deps changed = Some (bfs_result st')"
    by (simp add: bfs_features_def)
  ultimately show "\<exists>cnt a. bfs_features test deps changed = Some (cnt, 0, a) \<and> 1 \<le> cnt"
    by (simp add: bfs_result_def)
qed

theorem changed_test_overridden_witness:
  "''S1'' \<in> {''S1'', ''S3''} \<and>
   rank (map (\<lambda>row. Float (1 / 4))) [''A'', ''S1''] diamond {''S1'', ''S3''}
     = Some [(Float 1, ''S1''), (Float (1 / 4), ''A'')] \<and>
   one_score_per_row (map (\<lambda>row. Float (1 / 4))) \<and>
   bfs_features ''S1'' diamond {''S1'', ''S3''} = Some (2, 0, 1 / 2)"
proof -
  have r: "rank (map (\<lambda>row. Float (1 / 4))) [''A'', ''S1''] diamond {''S1'', ''S3''}
     = Some [(Float 1, ''S1''), (Float (1 / 4), ''A'')]"
    by (simp add: diamond_def rank_eval)
  have f: "bfs_features ''S1'' diamond {''S1'', ''S3''} = Some (2, 0, 1 / 2)"
    by (simp add: diamond_def bfs_eval)
  have h: "''S1'' \<in> {''S1'', ''S3''}" by simp
  from changed_test_overridden[OF h, of "map (\<lambda>row. Float (1 / 4))" "[''A'', ''S1'']" diamond]
    r f
  show ?thesis by (simp add: one_score_per_row_def)
qed

text \<open>
  Claim C2, as stated: the ranked list is in descending order of score, and among equal
  scores in descending order of the path. It fails when the model answers NaN: with the
  scores 0.5, NaN and 0.75 for the tests a, b and c, no comparison with NaN holds, the
  sort moves nothing, and 0.75 stands behind 0.5.
\<close>

theorem rank_descending_counterexample:
  "rank nan_model [''a'', ''b'', ''c''] fmempty {}
     = Some [(Float (1 / 2), ''a''), (NaN, ''b''), (Float (3 / 4), ''c'')] \<and>
   \<not> descending [(Float (1 / 2), ''a''), (NaN, ''b''), (Float (3 / 4), ''c'')]"
  by (simp add: nan_model_def descending_def rank_eval)

text \<open>
  Claim C2, amended. When no score of the ranked list is NaN, the list is in descending
  order of score, and among equal scores in descending order of the path. With the equal
  scores 0.5, beta_test stands above alpha_test.
\<close>

theorem rank_descending:
  "(\<exists>ranked. rank predict tests deps changed = Some ranked \<and>
      (NaN \<notin> fst ` set ranked \<longrightarrow> descending ranked)) \<and>
   rank (map (\<lambda>row. Float (1 / 2))) [''alpha_test'', ''beta_test''] fmempty {}
     = Some [(Float (1 / 2), ''beta_test''), (Float (1 / 2), ''alpha_test'')]"
proof
  obtain features where
    r: "rank predict tests deps changed =
       Some (sorted_reverse
         (zip (map (\<lambda>(v, test). if test \<in> changed then Float 1 else v)
                 (zip (predict features) tests)) tests))"
    by (rule rank_returns)
  let ?zipped = "zip (map (\<lambda>(v, test). if test \<in> changed then Float 1 else v)
                 (zip (predict features) tests)) tests"
  have "NaN \<notin> fst ` set (sorted_reverse ?zipped) \<longrightarrow> descending (sorted_reverse ?zipped)"
    using sorted_reverse_descending[of ?zipped] by (simp add: set_sorted_reverse)
  with r show "\<exists>ranked. rank predict tests deps changed = Some ranked \<and>
      (NaN \<notin> fst ` set ranked \<longrightarrow> descending ranked)"
    by blast
  show "rank (map (\<lambda>row. Float (1 / 2))) [''alpha_test'', ''beta_test''] fmempty {}
     = Some [(Float (1 / 2), ''beta_test''), (Float (1 / 2), ''alpha_test'')]"
    by (simp add: rank_eval)
qed

theorem rank_descending_witness:
  "rank (map (\<lambda>row. Float (1 / 4))) [''A'', ''S1'', ''S2''] diamond {''S1''}
     = Some [(Float 1, ''S1''), (Float (1 / 4), ''S2''), (Float (1 / 4), ''A'')] \<and>
   NaN \<notin> fst ` set [(Float 1, ''S1''), (Float (1 / 4), ''S2''), (Float (1 / 4), ''A'')] \<and>
   descending [(Float 1, ''S1''), (Float (1 / 4), ''S2''), (Float (1 / 4), ''A'')]"
proof -
  have r: "rank (map (\<lambda>row. Float (1 / 4))) [''A'', ''S1'', ''S2''] diamond {''S1''}
     = Some [(Float 1, ''S1''), (Float (1 / 4), ''S2''), (Float (1 / 4), ''A'')]"
    by (simp add: diamond_def rank_eval)
  have n: "NaN \<notin> fst ` set [(Float 1, ''S1''), (Float (1 / 4), ''S2''), (Float (1 / 4), ''A'')]"
    by simp
  from rank_descending[of "map (\<lambda>row. Float (1 / 4))" "[''A'', ''S1'', ''S2'']" diamond
      "{''S1''}"] r n
  have "descending [(Float 1, ''S1''), (Float (1 / 4), ''S2''), (Float (1 / 4), ''A'')]"
    by auto
  with r n show ?thesis by blast
qed

text \<open>
  Claim C3. When the model gives one score per row, the ranked list holds one pair for
  each input test: its paths are a permutation of the input list.
\<close>

theorem rank_permutation:
  assumes "one_score_per_row predict"
  shows "\<exists>ranked. rank predict tests deps changed = Some ranked \<and>
           mset (map snd ranked) = mset tests \<and> length ranked = length tests"
proof -
  obtain features where len: "length features = length tests"
    and r: "rank predict tests deps changed =
       Some (sorted_reverse
         (zip (map (\<lambda>(v, test). if test \<in> changed then Float 1 else v)
                 (zip (predict features) tests)) tests))"
    by (rule rank_returns)
  let ?zipped = "zip (map (\<lambda>(v, test). if test \<in> changed then Float 1 else v)
                 (zip (predict features) tests)) tests"
  from assms len have l: "length (predict features) = length tests"
    by (simp add: one_score_per_row_def)
  have "mset (map snd (sorted_reverse ?zipped)) = image_mset snd (mset ?zipped)"
    by (simp only: mset_map mset_sorted_reverse)
  also have "\<dots> = mset (map snd ?zipped)" by (simp only: mset_map)
  also have "\<dots> = mset tests" by (simp only: zip_scores_snd[OF l])
  finally have "mset (map snd (sorted_reverse ?zipped)) = mset tests" .
  moreover have "length (sorted_reverse ?zipped) = length tests"
    using l by (simp add: length_sorted_reverse)
  ultimately show ?thesis using r by simp
qed

theorem rank_permutation_witness:
  "one_score_per_row (map (\<lambda>row. Float (1 / 4))) \<and>
   rank (map (\<lambda>row. Float (1 / 4))) [''A'', ''S1'', ''A''] diamond {''S1''}
     = Some [(Float 1, ''S1''), (Float (1 / 4), ''A''), (Float (1 / 4), ''A'')] \<and>
   mset (map snd [(Float 1, ''S1''), (Float (1 / 4), ''A''), (Float (1 / 4), ''A'')])
     = mset [''A'', ''S1'', ''A'']"
proof -
  have h: "one_score_per_row (map (\<lambda>row. Float (1 / 4)))"
    by (simp add: one_score_per_row_def)
  have r: "rank (map (\<lambda>row. Float (1 / 4))) [''A'', ''S1'', ''A''] diamond {''S1''}
     = Some [(Float 1, ''S1''), (Float (1 / 4), ''A''), (Float (1 / 4), ''A'')]"
    by (simp add: diamond_def rank_eval)
  from rank_permutation[OF h, of "[''A'', ''S1'', ''A'']" diamond "{''S1''}"] h r
  show ?thesis by simp
qed

section \<open>Properties of the change detection\<close>

lemma changed_files_iff:
  "file \<in> changed_files old new \<longleftrightarrow>
   file \<in> fmdom' new \<and> (file \<notin> fmdom' old \<or> fmlookup new file \<noteq> fmlookup old file)"
  by (auto simp: changed_files_def fmdom'_notI split: option.splits dest: fmdom'_notD)

lemma new_hashes_loop_dom:
  "new_hashes_loop sha1_file project_folder files acc = Inr new \<Longrightarrow>
   fmdom' new = fmdom' acc \<union> set files"
proof (induction files arbitrary: acc)
  case Nil
  then show ?case by simp
next
  case (Cons f files)
  then show ?case by (auto split: sum.splits)
qed

lemma changed_files_subset: "changed_files old new \<subseteq> fmdom' new"
  by (simp add: changed_files_def subset_iff)

lemma tp_changed_Inr:
  assumes "tp_changed open_load sha1_file project_folder test_files source_files
             = Inr (new, changed)"
  shows "fmdom' new = set test_files \<union> set source_files"
    and "changed = changed_files (load_hashes open_load project_folder) new"
    and "changed \<subseteq> set test_files \<union> set source_files"
proof -
  obtain r where loop:
    "new_hashes_loop sha1_file project_folder (test_files @ source_files) fmempty = Inr r"
    using assms unfolding tp_changed_def Let_def
    by (cases "new_hashes_loop sha1_file project_folder (test_files @ source_files) fmempty")
       simp_all
  with assms have eq: "new = r"
    and ch: "changed = changed_files (load_hashes open_load project_folder) r"
    unfolding tp_changed_def Let_def by auto
  from new_hashes_loop_dom[OF loop] eq
  show dom: "fmdom' new = set test_files \<union> set source_files" by simp
  from ch eq show c: "changed = changed_files (load_hashes open_load project_folder) new"
    by simp
  from changed_files_subset[of "load_hashes open_load project_folder" new] c dom
  show "changed \<subseteq> set test_files \<union> set source_files" by simp
qed

text \<open>
  Claim C7. A current file is in the change set exactly when the prior mapping has no
  entry for it or records another hash; a file with the same hash in both mappings is
  not in it; the change set lies within the keys of the new mapping, which in
  \<open>tp\<close> are the current test and source files.
\<close>

theorem changed_files_exact:
  "(file \<in> fmdom' new_hashes \<longrightarrow>
      (file \<in> changed_files old_hashes new_hashes \<longleftrightarrow>
         file \<notin> fmdom' old_hashes \<or> fmlookup new_hashes file \<noteq> fmlookup old_hashes file)) \<and>
   (fmlookup old_hashes file = Some h \<and> fmlookup new_hashes file = Some h \<longrightarrow>
      file \<notin> changed_files old_hashes new_hashes) \<and>
   changed_files old_hashes new_hashes \<subseteq> fmdom' new_hashes \<and>
   (tp_changed open_load sha1_file project_folder test_files source_files
      = Inr (new_hashes', changed) \<longrightarrow>
      fmdom' new_hashes' = set test_files \<union> set source_files \<and>
      changed = changed_files (load_hashes open_load project_folder) new_hashes' \<and>
      changed \<subseteq> set test_files \<union> set source_files)"
proof (intro conjI impI)
  assume "file \<in> fmdom' new_hashes"
  then show "file \<in> changed_files old_hashes new_hashes \<longleftrightarrow>
         file \<notin> fmdom' old_hashes \<or> fmlookup new_hashes file \<noteq> fmlookup old_hashes file"
    by (simp add: changed_files_iff)
next
  assume "fmlookup old_hashes file = Some h \<and> fmlookup new_hashes file = Some h"
  then show "file \<notin> changed_files old_hashes new_hashes"
    by (auto simp: changed_files_iff intro: fmdom'I)
next
  show "changed_files old_hashes new_hashes \<subseteq> fmdom' new_hashes"
    by (rule changed_files_subset)
next
  assume tp: "tp_changed open_load sha1_file project_folder test_files source_files
      = Inr (new_hashes', changed)"
  from tp_changed_Inr[OF tp]
  show "fmdom' new_hashes' = set test_files \<union> set source_files"
    and "changed = changed_files (load_hashes open_load project_folder) new_hashes'"
    and "changed \<subseteq> set test_files \<union> set source_files"
    by simp_all
qed


theorem changed_files_exact_witness:
  "''a.py'' \<in> fmdom' (fmupd ''b.py'' ''h3'' (fmupd ''a.py'' ''h1'' fmempty)) \<and>
   ''a.py'' \<notin> changed_files (fmupd ''a.py'' ''h1'' fmempty)
                 (fmupd ''b.py'' ''h3'' (fmupd ''a.py'' ''h1'' fmempty)) \<and>
   fmlookup (fmupd ''a.py'' ''h1'' fmempty) ''a.py'' = Some ''h1'' \<and>
   fmlookup (fmupd ''b.py'' ''h3'' (fmupd ''a.py'' ''h1'' fmempty)) ''a.py'' = Some ''h1'' \<and>
   tp_changed (\<lambda>p. Inr (fmupd ''a.py'' ''h1'' fmempty))
      (\<lambda>p. if p = ''proj/a.py'' then Inr ''h1'' else Inr ''h3'') ''proj'' [''a.py''] [''b.py'']
     = Inr (fmupd ''b.py'' ''h3'' (fmupd ''a.py'' ''h1'' fmempty), {''b.py''})"
proof -
  have c: "changed_files (fmupd ''a.py'' ''h1'' fmempty)
             (fmupd ''b.py'' ''h3'' (fmupd ''a.py'' ''h1'' fmempty)) = {''b.py''}"
    by (auto simp: changed_files_iff)
  have j: "join ''proj'' ''a.py'' = ''proj/a.py''" "join ''proj'' ''b.py'' = ''proj/b.py''"
    by (simp_all add: join_def)
  have t: "tp_changed (\<lambda>p. Inr (fmupd ''a.py'' ''h1'' fmempty))
      (\<lambda>p. if p = ''proj/a.py'' then Inr ''h1'' else Inr ''h3'') ''proj'' [''a.py''] [''b.py'']
     = Inr (fmupd ''b.py'' ''h3'' (fmupd ''a.py'' ''h1'' fmempty), {''b.py''})"
    by (simp add: tp_changed_def load_hashes_def j c)
  from changed_files_exact[of "''a.py''" "fmupd ''b.py'' ''h3'' (fmupd ''a.py'' ''h1'' fmempty)"
      "fmupd ''a.py'' ''h1'' fmempty" "''h1''"
      "\<lambda>p. Inr (fmupd ''a.py'' ''h1'' fmempty)"
      "\<lambda>p. if p = ''proj/a.py'' then Inr ''h1'' else Inr ''h3''" "''proj''"
      "[''a.py'']" "[''b.py'']" "fmupd ''b.py'' ''h3'' (fmupd ''a.py'' ''h1'' fmempty)"
      "{''b.py''}"] t
  show ?thesis by simp
qed

text \<open>
  Claim C8. When the prior hash file cannot be opened or loaded, \<open>load_hashes\<close> gives
  the empty mapping, and then every key of the new mapping, that is every current file,
  is in the change set.
\<close>

theorem load_hashes_unreadable:
  assumes "open_load (join (join project_folder FOLDER) ''hashes.json'') = Inl e"
  shows "load_hashes open_load project_folder = fmempty \<and>
         changed_files (load_hashes open_load project_folder) new_hashes
           = fmdom' new_hashes \<and>
         (tp_changed open_load sha1_file project_folder test_files source_files
            = Inr (new_hashes', changed) \<longrightarrow>
          changed = set test_files \<union> set source_files)"
proof -
  from assms have l: "load_hashes open_load project_folder = fmempty"
    by (simp add: load_hashes_def)
  have c: "changed_files fmempty new = fmdom' new" for new
    by (auto simp: changed_files_iff)
  have "changed = set test_files \<union> set source_files"
    if "tp_changed open_load sha1_file project_folder test_files source_files
            = Inr (new_hashes', changed)"
    using tp_changed_Inr(1,2)[OF that] l c by simp
  with l c show ?thesis by simp
qed

theorem load_hashes_unreadable_witness:
  "unreadable_state (join (join ''proj'' FOLDER) ''hashes.json'') = Inl OSError \<and>
   load_hashes unreadable_state ''proj'' = fmempty \<and>
   tp_changed unreadable_state (\<lambda>p. Inr ''h1'') ''proj'' [''a.py''] [''b.py'']
     = Inr (fmupd ''b.py'' ''h1'' (fmupd ''a.py'' ''h1'' fmempty), {''a.py'', ''b.py''})"
proof -
  have h: "unreadable_state (join (join ''proj'' FOLDER) ''hashes.json'') = Inl OSError"
    by (simp add: join_def FOLDER_def unreadable_state_def)
  have n: "new_hashes_loop (\<lambda>p. Inr ''h1'') ''proj'' ([''a.py''] @ [''b.py'']) fmempty
             = Inr (fmupd ''b.py'' ''h1'' (fmupd ''a.py'' ''h1'' fmempty))"
    by simp
  note t = load_hashes_unreadable[of unreadable_state "''proj''" OSError
      "fmupd ''b.py'' ''h1'' (fmupd ''a.py'' ''h1'' fmempty)" "\<lambda>p. Inr ''h1''"
      "[''a.py'']" "[''b.py'']" "fmupd ''b.py'' ''h1'' (fmupd ''a.py'' ''h1'' fmempty)"
      "{''a.py'', ''b.py''}", OF h]
  from t have l: "load_hashes unreadable_state ''proj'' = fmempty"
    by (rule conjunct1)
  from t have c: "changed_files (load_hashes unreadable_state ''proj'')
              (fmupd ''b.py'' ''h1'' (fmupd ''a.py'' ''h1'' fmempty))
            = fmdom' (fmupd ''b.py'' ''h1'' (fmupd ''a.py'' ''h1'' fmempty))"
    by (rule conjunct1[OF conjunct2])
  have "tp_changed unreadable_state (\<lambda>p. Inr ''h1'') ''proj'' [''a.py''] [''b.py'']
     = Inr (fmupd ''b.py'' ''h1'' (fmupd ''a.py'' ''h1'' fmempty), {''a.py'', ''b.py''})"
    by (auto simp: tp_changed_def n c)
  with h l show ?thesis by simp
qed

section \<open>Properties of the graph construction\<close>

lemma append_items_Some:
  "fmlookup d k = Some l \<Longrightarrow>
   append_items rel k items d = Inr (fmupd k (l @ item_paths rel items) d)"
proof (induction items arbitrary: d l)
  case Nil
  then show ?case by (auto simp: item_paths_def intro!: fmap_ext)
next
  case (Cons it items)
  obtain p e s where it: "it = (p, e, s)" by (cases it)
  have "fmlookup (fmupd k (l @ [rel p]) d) k = Some (l @ [rel p])" by simp
  from Cons.IH[OF this] Cons.prems show ?case
    by (simp add: it item_paths_def)
qed

lemma deps_loop_Inr:
  "fmlookup d k = Some l \<Longrightarrow> set deps \<subseteq> fst ` set files \<Longrightarrow>
   deps_loop files rel k deps d = Inr (fmupd k (l @ concat (map (resolve files rel) deps)) d)"
proof (induction deps arbitrary: d l)
  case Nil
  then show ?case by (auto intro!: fmap_ext)
next
  case (Cons dep deps)
  from Cons.prems(2) have "dep \<in> fst ` set files" by simp
  then obtain deps2 items2 where m: "map_of files dep = Some (deps2, items2)"
    by (metis domD dom_map_of_conv_image_fst surj_pair)
  let ?d = "fmupd k (l @ item_paths rel items2) d"
  have a: "append_items rel k items2 d = Inr ?d"
    by (rule append_items_Some[OF Cons.prems(1)])
  have "fmlookup ?d k = Some (l @ item_paths rel items2)" by simp
  from Cons.IH[OF this] Cons.prems(2)
  have "deps_loop files rel k deps ?d
      = Inr (fmupd k ((l @ item_paths rel items2) @ concat (map (resolve files rel) deps)) ?d)"
    by simp
  moreover from m have "resolve files rel dep = item_paths rel items2"
    by (simp add: resolve_def)
  ultimately show ?case using m a by simp
qed

lemma deps_loop_Inl:
  "fmlookup d k = Some l \<Longrightarrow> \<not> set deps \<subseteq> fst ` set files \<Longrightarrow>
   deps_loop files rel k deps d = Inl KeyError"
proof (induction deps arbitrary: d l)
  case Nil
  then show ?case by simp
next
  case (Cons dep deps)
  show ?case
  proof (cases "map_of files dep")
    case None
    then show ?thesis by simp
  next
    case (Some v)
    obtain deps2 items2 where v: "v = (deps2, items2)" by (cases v)
    from Some have "dep \<in> fst ` set files" by (metis domI dom_map_of_conv_image_fst)
    with Cons.prems(2) have n: "\<not> set deps \<subseteq> fst ` set files" by simp
    let ?d = "fmupd k (l @ item_paths rel items2) d"
    have a: "append_items rel k items2 d = Inr ?d"
      by (rule append_items_Some[OF Cons.prems(1)])
    have "fmlookup ?d k = Some (l @ item_paths rel items2)" by simp
    from Cons.IH[OF this n] Some v a show ?thesis by simp
  qed
qed

lemma items_loop_Inr:
  "set deps \<subseteq> fst ` set files \<Longrightarrow>
   \<exists>d'. items_loop files rel deps items d = Inr d' \<and>
     (\<forall>k. fmlookup d' k =
        (if k \<in> set (item_paths rel items)
         then Some (concat (map (resolve files rel) deps)) else fmlookup d k))"
proof (induction items arbitrary: d)
  case Nil
  then show ?case by (simp add: item_paths_def)
next
  case (Cons it items)
  obtain p e s where it: "it = (p, e, s)" by (cases it)
  let ?d = "fmupd (rel p) (concat (map (resolve files rel) deps)) (fmupd (rel p) [] d)"
  have "fmlookup (fmupd (rel p) [] d) (rel p) = Some []" by simp
  from deps_loop_Inr[OF this Cons.prems]
  have dl: "deps_loop files rel (rel p) deps (fmupd (rel p) [] d) = Inr ?d" by simp
  from Cons.IH[OF Cons.prems, of ?d] obtain d' where
    il: "items_loop files rel deps items ?d = Inr d'"
    and lk: "\<forall>k. fmlookup d' k =
        (if k \<in> set (item_paths rel items)
         then Some (concat (map (resolve files rel) deps)) else fmlookup ?d k)" by blast
  from dl il have "items_loop files rel deps (it # items) d = Inr d'" by (simp add: it)
  moreover have "item_paths rel (it # items) = rel p # item_paths rel items"
    by (simp add: it item_paths_def)
  with lk have "\<forall>k. fmlookup d' k =
        (if k \<in> set (item_paths rel (it # items))
         then Some (concat (map (resolve files rel) deps)) else fmlookup d k)"
    by simp
  ultimately show ?case by blast
qed

lemma items_loop_Inl:
  "\<not> set deps \<subseteq> fst ` set files \<Longrightarrow> items \<noteq> [] \<Longrightarrow>
   items_loop files rel deps items d = Inl KeyError"
proof -
  assume n: "\<not> set deps \<subseteq> fst ` set files" and "items \<noteq> []"
  then obtain it rest where items: "items = it # rest" by (cases items) auto
  obtain p e s where it: "it = (p, e, s)" by (cases it)
  have "fmlookup (fmupd (rel p) [] d) (rel p) = Some []" by simp
  from deps_loop_Inl[OF this n] show ?thesis by (simp add: items it)
qed

lemma items_loop_result:
  assumes "items_loop files rel deps items d = Inr d'"
  shows "fmlookup d' k =
        (if k \<in> set (item_paths rel items)
         then Some (concat (map (resolve files rel) deps)) else fmlookup d k)"
proof (cases "set deps \<subseteq> fst ` set files")
  case True
  from items_loop_Inr[OF True, of rel items d] assms show ?thesis by auto
next
  case False
  have "items = []"
  proof (rule ccontr)
    assume "items \<noteq> []"
    from items_loop_Inl[OF False this, of rel d] assms show False by simp
  qed
  with assms show ?thesis by (simp add: item_paths_def)
qed

lemma values_loop_total:
  "\<forall>v \<in> set vs. set (fst v) \<subseteq> fst ` set files \<Longrightarrow>
   \<exists>d'. values_loop files rel vs d = Inr d'"
proof (induction vs arbitrary: d)
  case Nil
  then show ?case by simp
next
  case (Cons v vs)
  obtain deps items where v: "v = (deps, items)" by (cases v)
  from Cons.prems v have sub: "set deps \<subseteq> fst ` set files"
    and rest: "\<forall>v \<in> set vs. set (fst v) \<subseteq> fst ` set files" by simp_all
  from items_loop_Inr[OF sub, of rel items d] obtain d1
    where "items_loop files rel deps items d = Inr d1" by blast
  with Cons.IH[OF rest, of d1] Cons.IH[OF rest, of d] v show ?case by simp
qed


lemma values_loop_None:
  "values_loop files rel vs d = Inr d' \<Longrightarrow>
   fmlookup d' k = None \<longleftrightarrow>
     fmlookup d k = None \<and>
     \<not> (\<exists>deps items. (deps, items) \<in> set vs \<and> deps \<noteq> [] \<and> k \<in> set (item_paths rel items))"
proof (induction vs arbitrary: d)
  case Nil
  then show ?case by simp
next
  case (Cons v vs)
  obtain deps items where v: "v = (deps, items)" by (cases v)
  show ?case
  proof (cases "deps = []")
    case True
    with Cons.prems v have "values_loop files rel vs d = Inr d'" by simp
    from Cons.IH[OF this] True show ?thesis unfolding v by simp blast
  next
    case False
    with Cons.prems v obtain d1 where il: "items_loop files rel deps items d = Inr d1"
      and vl: "values_loop files rel vs d1 = Inr d'"
      by (cases "items_loop files rel deps items d") simp_all
    note l1 = items_loop_result[OF il, of k]
    note ih = Cons.IH[OF vl]
    show ?thesis
    proof (cases "k \<in> set (item_paths rel items)")
      case True
      with l1 have "fmlookup d1 k \<noteq> None" by simp
      with ih have "fmlookup d' k \<noteq> None" by simp
      moreover from True False
      have "\<exists>deps items. (deps, items) \<in> set (v # vs) \<and> deps \<noteq> [] \<and>
              k \<in> set (item_paths rel items)"
        unfolding v by (intro exI[of _ deps] exI[of _ items]) simp
      ultimately show ?thesis by simp
    next
      case nk: False
      with l1 have "fmlookup d1 k = fmlookup d k" by simp
      with ih nk show ?thesis unfolding v by simp blast
    qed
  qed
qed

lemma values_loop_Some:
  "values_loop files rel vs d = Inr d' \<Longrightarrow> fmlookup d' k = Some l \<Longrightarrow>
   fmlookup d k = Some l \<or>
   (\<exists>deps items. (deps, items) \<in> set vs \<and> deps \<noteq> [] \<and> k \<in> set (item_paths rel items) \<and>
      l = concat (map (resolve files rel) deps))"
proof (induction vs arbitrary: d)
  case Nil
  then show ?case by simp
next
  case (Cons v vs)
  obtain deps items where v: "v = (deps, items)" by (cases v)
  show ?case
  proof (cases "deps = []")
    case True
    with Cons.prems v have "values_loop files rel vs d = Inr d'" by simp
    from Cons.IH[OF this Cons.prems(2)] show ?thesis by auto
  next
    case False
    with Cons.prems v obtain d1 where il: "items_loop files rel deps items d = Inr d1"
      and vl: "values_loop files rel vs d1 = Inr d'"
      by (cases "items_loop files rel deps items d") simp_all
    note l1 = items_loop_result[OF il, of k]
    from Cons.IH[OF vl Cons.prems(2)]
    consider "fmlookup d1 k = Some l"
      | "\<exists>deps items. (deps, items) \<in> set vs \<and> deps \<noteq> [] \<and> k \<in> set (item_paths rel items) \<and>
           l = concat (map (resolve files rel) deps)" by blast
    then show ?thesis
    proof cases
      case 1
      show ?thesis
      proof (cases "k \<in> set (item_paths rel items)")
        case True
        with l1 1 have "l = concat (map (resolve files rel) deps)" by simp
        with True False
        have "\<exists>deps items. (deps, items) \<in> set (v # vs) \<and> deps \<noteq> [] \<and>
                k \<in> set (item_paths rel items) \<and> l = concat (map (resolve files rel) deps)"
          unfolding v by (intro exI[of _ deps] exI[of _ items]) simp
        then show ?thesis ..
      next
        case nk: False
        with l1 1 show ?thesis by simp
      qed
    next
      case 2
      then show ?thesis by auto
    qed
  qed
qed

text \<open>
  Claim C9. The keys of the graph are the project-relative paths of the items of the
  entries that have at least one dependency, so a file without dependencies gets no
  entry; the list of a key is, dependency by dependency, all the project-relative paths
  of the items of that dependency, so that a dependency with two items gives two edges.
  The function returns a graph whenever every dependency is an identifier of the
  extractor's output.
\<close>

theorem get_dependencies_graph:
  "((\<forall>v \<in> snd ` set files. set (fst v) \<subseteq> fst ` set files) \<longrightarrow>
      (\<exists>g. get_dependencies files rel = Inr g)) \<and>
   (get_dependencies files rel = Inr g \<longrightarrow>
      (k \<in> fmdom' g \<longleftrightarrow>
         (\<exists>deps items. (deps, items) \<in> snd ` set files \<and> deps \<noteq> [] \<and>
            k \<in> set (item_paths rel items))) \<and>
      (\<forall>l. fmlookup g k = Some l \<longrightarrow>
         (\<exists>deps items. (deps, items) \<in> snd ` set files \<and> deps \<noteq> [] \<and>
            k \<in> set (item_paths rel items) \<and>
            l = concat (map (resolve files rel) deps))))"
proof (intro conjI impI allI)
  assume "\<forall>v \<in> snd ` set files. set (fst v) \<subseteq> fst ` set files"
  then have "\<forall>v \<in> set (map snd files). set (fst v) \<subseteq> fst ` set files" by simp
  from values_loop_total[OF this] show "\<exists>g. get_dependencies files rel = Inr g"
    by (simp add: get_dependencies_def)
next
  assume "get_dependencies files rel = Inr g"
  then have v: "values_loop files rel (map snd files) fmempty = Inr g"
    by (simp add: get_dependencies_def)
  have "k \<in> fmdom' g \<longleftrightarrow> fmlookup g k \<noteq> None" by (simp add: fmlookup_dom'_iff)
  with values_loop_None[OF v, of k]
  show "k \<in> fmdom' g \<longleftrightarrow>
         (\<exists>deps items. (deps, items) \<in> snd ` set files \<and> deps \<noteq> [] \<and>
            k \<in> set (item_paths rel items))"
    by simp
next
  fix l
  assume "get_dependencies files rel = Inr g" and l: "fmlookup g k = Some l"
  then have v: "values_loop files rel (map snd files) fmempty = Inr g"
    by (simp add: get_dependencies_def)
  from values_loop_Some[OF v l]
  show "\<exists>deps items. (deps, items) \<in> snd ` set files \<and> deps \<noteq> [] \<and>
            k \<in> set (item_paths rel items) \<and>
            l = concat (map (resolve files rel) deps)"
    by simp
qed

theorem get_dependencies_graph_witness:
  "get_dependencies extracted_example (drop 3)
     = Inr (fmupd ''test/t.py'' [''src/m.py'', ''lib/m.py''] fmempty) \<and>
   ''test/t.py'' \<in> fmdom' (fmupd ''test/t.py'' [''src/m.py'', ''lib/m.py''] fmempty) \<and>
   ''src/m.py'' \<notin> fmdom' (fmupd ''test/t.py'' [''src/m.py'', ''lib/m.py''] fmempty) \<and>
   resolve extracted_example (drop 3) ''m'' = [''src/m.py'', ''lib/m.py'']"
proof -
  have h: "\<forall>v \<in> snd ` set extracted_example. set (fst v) \<subseteq> fst ` set extracted_example"
    by (simp add: extracted_example_def)
  have e: "get_dependencies extracted_example (drop 3)
     = Inr (fmupd ''test/t.py'' [''src/m.py'', ''lib/m.py''] fmempty)"
    by (simp add: get_dependencies_def extracted_example_def)
  have r: "resolve extracted_example (drop 3) ''m'' = [''src/m.py'', ''lib/m.py'']"
    by (simp add: resolve_def extracted_example_def item_paths_def)
  from get_dependencies_graph[of extracted_example "drop 3"
      "fmupd ''test/t.py'' [''src/m.py'', ''lib/m.py''] fmempty" "''test/t.py''"] h e r
  show ?thesis by simp
qed

end
